theory Spec2Isabelle
  imports Complex_Main "HOL-Library.Word"
begin

unbundle bit_operations_syntax

section \<open>Data model\<close>

text \<open>
  Bytes are 8-bit words and the chunk size is Go's \<^verbatim>\<open>uint16\<close>. Go's \<^verbatim>\<open>int\<close> is
  modelled by \<^typ>\<open>nat\<close> where it holds a length or a loop index and by \<^typ>\<open>int\<close>
  for the counter \<^verbatim>\<open>nrReceived\<close>; none of them gets near 64 bits, since a slot
  array has at most 255 entries and a split has at most as many chunks as bytes.
\<close>

type_synonym byte = "8 word"
type_synonym uint16 = "16 word"

text \<open>
  A run-time panic of Go is a value of the model. The index panic carries the index and
  the length, the slice panic the offending bound and the limit it exceeds.
\<close>

datatype go_panic =
    IndexOutOfRange nat nat
  | SliceBoundsOutOfRange nat nat
  | DivideByZero
  | NilPointerDereference

text \<open>The errors that the package returns as \<^verbatim>\<open>error\<close> values.\<close>

datatype go_error = CarrierError | InvalidChunk

text \<open>
  A byte slice handed to \<^verbatim>\<open>NewChunk\<close>: its elements, and the bytes of its backing
  array between its length and its capacity. The slice expression \<^verbatim>\<open>data[2:4]\<close> is
  checked against the capacity, so these bytes can be read.
\<close>

record byte_slice =
  elems :: "byte list"
  spare :: "byte list"

record QRChunk =
  nr :: byte
  tot :: byte
  cs :: uint16
  data :: "byte list"

text \<open>
  \<^verbatim>\<open>[]*QRChunk\<close> is a list of optional chunks: \<^term>\<open>None\<close> is the nil pointer.
\<close>

record QRSequence =
  ChunkSize :: uint16
  chunks :: "QRChunk option list"
  nrReceived :: int

definition ChunkSizeUnknown :: uint16 where
  "ChunkSizeUnknown = 0"

section \<open>Frame codec\<close>

definition isValidChunkSize :: "uint16 \<Rightarrow> bool" where
  "isValidChunkSize sz =
     (sz = 32 \<or> sz = 64 \<or> sz = 128 \<or> sz = 256 \<or> sz = 512 \<or> sz = 1024)"

text \<open>
  \<^verbatim>\<open>binary.Read(r, binary.LittleEndian, &cs)\<close> for a \<^verbatim>\<open>uint16\<close>: two bytes are
  read, the first is the low byte; a reader with fewer than two bytes gives an error.
\<close>

fun binary_Read_u16 :: "byte list \<Rightarrow> uint16 option" where
  "binary_Read_u16 (b0 # b1 # bs) = Some (ucast b0 OR push_bit 8 (ucast b1))"
| "binary_Read_u16 bs = None"

text \<open>\<^verbatim>\<open>binary.Write(buf, binary.LittleEndian, c.cs)\<close>: low byte first.\<close>

definition binary_Write_u16 :: "uint16 \<Rightarrow> byte list" where
  "binary_Write_u16 w = [ucast w, ucast (drop_bit 8 w)]"

text \<open>
  \<^verbatim>\<open>NewChunk\<close>. The source indexes \<^verbatim>\<open>data[0]\<close> and \<^verbatim>\<open>data[1]\<close> (checked
  against the length), slices \<^verbatim>\<open>data[2:4]\<close> (checked against the capacity), returns
  nil for a chunk size outside the enumeration, and then slices \<^verbatim>\<open>data[4:cs]\<close> or
  \<^verbatim>\<open>data[4:]\<close>; the latter panics when the length is below 4. The result
  \<^term>\<open>Inr None\<close> is the nil pointer.
\<close>

definition NewChunk :: "byte_slice \<Rightarrow> go_panic + QRChunk option" where
  "NewChunk d =
     (let n = length (elems d); cap = n + length (spare d) in
      if n < 1 then Inl (IndexOutOfRange 0 n)
      else if n < 2 then Inl (IndexOutOfRange 1 n)
      else if cap < 4 then Inl (SliceBoundsOutOfRange 4 cap)
      else
        (case binary_Read_u16 (take 2 (drop 2 (elems d @ spare d))) of
           None \<Rightarrow> Inr None
         | Some sz \<Rightarrow>
             if \<not> isValidChunkSize sz then Inr None
             else if n > unat sz then
               Inr (Some \<lparr>nr = elems d ! 0, tot = elems d ! 1, cs = sz,
                          data = take (unat sz - 4) (drop 4 (elems d))\<rparr>)
             else if n < 4 then Inl (SliceBoundsOutOfRange 4 n)
             else
               Inr (Some \<lparr>nr = elems d ! 0, tot = elems d ! 1, cs = sz,
                          data = drop 4 (elems d)\<rparr>)))"

text \<open>
  \<^verbatim>\<open>NewChunkFromImage\<close>. The bitmap conversion, the QR reader and the base64 decoder
  are libraries outside the repository: their joint outcome on the image is the
  argument, an error or the decoded bytes. The outer sum is the panic, the inner one the
  returned \<^verbatim>\<open>error\<close>.
\<close>

definition NewChunkFromImage :: "go_error + byte_slice \<Rightarrow> go_panic + (go_error + QRChunk)" where
  "NewChunkFromImage img =
     (case img of
        Inl e \<Rightarrow> Inr (Inl e)
      | Inr bytes \<Rightarrow>
          (case NewChunk bytes of
             Inl p \<Rightarrow> Inl p
           | Inr None \<Rightarrow> Inr (Inl InvalidChunk)
           | Inr (Some chunk) \<Rightarrow> Inr (Inr chunk)))"

text \<open>
  The bytes that \<^verbatim>\<open>QRChunk.QRCode\<close> builds in \<^verbatim>\<open>qrdata\<close> before it hands their
  base64 text to the QR encoder.
\<close>

definition qrdata :: "QRChunk \<Rightarrow> byte list" where
  "qrdata c = [nr c] @ [tot c] @ binary_Write_u16 (cs c) @ data c"

section \<open>Chunker\<close>

text \<open>
  The closure of \<^verbatim>\<open>CreateChunks\<close> that cuts the payload of chunk \<open>i\<close>;
  \<^verbatim>\<open>data[s:]\<close> and \<^verbatim>\<open>data[s:e]\<close> panic when \<open>s\<close> is beyond the length.
\<close>

definition chunkData :: "byte list \<Rightarrow> nat \<Rightarrow> nat \<Rightarrow> go_panic + byte list" where
  "chunkData d ds i =
     (let s = i * ds; e = s + ds in
      if e > length d then
        (if s > length d then Inl (SliceBoundsOutOfRange s (length d)) else Inr (drop s d))
      else Inr (take (e - s) (drop s d)))"

text \<open>The loop of \<^verbatim>\<open>CreateChunks\<close>; \<^verbatim>\<open>uint8(i)\<close> and \<^verbatim>\<open>uint8(tot)\<close> truncate.\<close>

function CreateChunks_loop ::
  "byte list \<Rightarrow> uint16 \<Rightarrow> nat \<Rightarrow> nat \<Rightarrow> QRChunk option list \<Rightarrow> go_panic + QRChunk option list"
where
  "CreateChunks_loop d chunkSize ntot i acc =
     (if i < ntot then
        (case chunkData d (unat (chunkSize - 4)) i of
           Inl p \<Rightarrow> Inl p
         | Inr bs \<Rightarrow>
             CreateChunks_loop d chunkSize ntot (i + 1)
               (acc @ [Some \<lparr>nr = of_nat i, tot = of_nat ntot, cs = chunkSize, data = bs\<rparr>]))
      else Inr acc)"
  by pat_completeness auto
termination
  by (relation "measure (\<lambda>(d, chunkSize, ntot, i, acc). ntot - i)") auto

declare CreateChunks_loop.simps [simp del]

text \<open>
  \<^verbatim>\<open>CreateChunks\<close>: \<^verbatim>\<open>ds := chunkSize - 4\<close> wraps in 16 bits, and the integer
  division panics when \<open>ds\<close> is zero.
\<close>

definition CreateChunks :: "byte list \<Rightarrow> uint16 \<Rightarrow> go_panic + QRChunk option list" where
  "CreateChunks d chunkSize =
     (let ds = unat (chunkSize - 4) in
      if ds = 0 then Inl DivideByZero
      else
        (let t = length d div ds;
             ntot = (if length d mod ds \<noteq> 0 then t + 1 else t)
         in CreateChunks_loop d chunkSize ntot 0 []))"

text \<open>
  \<^verbatim>\<open>GetData\<close>. A Go byte slice that may be nil is a \<^typ>\<open>byte list option\<close>:
  \<^term>\<open>None\<close> is nil, \<^term>\<open>Some []\<close> the empty slice that \<^verbatim>\<open>make\<close> returns.
  Reading a field of a nil chunk panics.
\<close>

fun GetData_loop :: "QRChunk option list \<Rightarrow> byte list \<Rightarrow> go_panic + byte list" where
  "GetData_loop [] acc = Inr acc"
| "GetData_loop (None # rest) acc = Inl NilPointerDereference"
| "GetData_loop (Some chunk # rest) acc = GetData_loop rest (acc @ data chunk)"

definition GetData :: "QRChunk option list \<Rightarrow> go_panic + byte list option" where
  "GetData chs =
     (if length chs = 0 then Inr None
      else
        (case chs ! 0 of
           None \<Rightarrow> Inl NilPointerDereference
         | Some first \<Rightarrow>
             (case GetData_loop chs [] of Inl p \<Rightarrow> Inl p | Inr bs \<Rightarrow> Inr (Some bs))))"

section \<open>Sequence assembler\<close>

definition New :: "byte list \<Rightarrow> uint16 \<Rightarrow> go_panic + QRSequence" where
  "New d chunkSize =
     (case CreateChunks d chunkSize of
        Inl p \<Rightarrow> Inl p
      | Inr chs \<Rightarrow>
          Inr \<lparr>ChunkSize = chunkSize, chunks = chs, nrReceived = int (length chs)\<rparr>)"

definition NewEmpty :: QRSequence where
  "NewEmpty = \<lparr>ChunkSize = ChunkSizeUnknown, chunks = [], nrReceived = 0\<rparr>"

definition IsComplete :: "QRSequence \<Rightarrow> bool" where
  "IsComplete s =
     (if ChunkSize s = ChunkSizeUnknown then False
      else nrReceived s = int (length (chunks s)))"

text \<open>
  \<^verbatim>\<open>Progress\<close> returns a \<^verbatim>\<open>float32\<close>: a rational that the binary32 format
  represents, an infinity or NaN. The two zeros are one value here; Go compares them
  equal.
\<close>

datatype float32 = Finite rat | PosInf | NegInf | NaN

text \<open>Rounding a rational to the nearest integer, a tie to the even one.\<close>

definition round_even :: "rat \<Rightarrow> int" where
  "round_even x =
     (let f = \<lfloor>x\<rfloor>; r = x - of_int f in
      if r < 1 / 2 then f
      else if 1 / 2 < r then f + 1
      else if even f then f else f + 1)"

text \<open>
  The binary exponent that the format uses for a magnitude \<open>a\<close> below \<open>2 ^ 128\<close>: the
  greatest \<open>e\<close> from \<open>- 126\<close> to \<open>127\<close> with \<open>2 ^ e \<le> a\<close>, searched from the top, and
  \<open>- 126\<close> for the subnormal magnitudes below \<open>2 ^ - 126\<close>.
\<close>

fun f32_exponent_from :: "rat \<Rightarrow> nat \<Rightarrow> int" where
  "f32_exponent_from a 0 = - 126"
| "f32_exponent_from a (Suc n) =
     (if power_int 2 (int n - 125) \<le> a then int n - 125 else f32_exponent_from a n)"

definition f32_exponent :: "rat \<Rightarrow> int" where
  "f32_exponent a = f32_exponent_from a 253"

text \<open>
  The nearest multiple of the unit in the last place, \<open>2 ^ (e - 23)\<close>, for a significand
  of 24 bits, and the rounding of IEEE 754 to binary32 (to nearest, ties to even): a
  result of \<open>2 ^ 128\<close> or more is an infinity.
\<close>

definition f32_nearest :: "rat \<Rightarrow> rat" where
  "f32_nearest a =
     (let e = f32_exponent a; ulp = power_int 2 (e - 23)
      in of_int (round_even (a / ulp)) * ulp)"

definition f32_round :: "rat \<Rightarrow> float32" where
  "f32_round q =
     (if 0 \<le> q then
        (let v = f32_nearest q in if 2 ^ 128 \<le> v then PosInf else Finite v)
      else
        (let v = f32_nearest (- q) in if 2 ^ 128 \<le> v then NegInf else Finite (- v)))"

text \<open>
  The conversion \<^verbatim>\<open>float32(n)\<close> of an integer and the division of two
  \<^verbatim>\<open>float32\<close> values; a zero divisor is the positive zero, which is what the
  conversion of the length 0 gives.
\<close>

definition f32_of_int :: "int \<Rightarrow> float32" where
  "f32_of_int n = f32_round (of_int n)"

fun f32_div :: "float32 \<Rightarrow> float32 \<Rightarrow> float32" where
  "f32_div NaN y = NaN"
| "f32_div x NaN = NaN"
| "f32_div (Finite x) (Finite y) =
     (if y = 0 then (if x = 0 then NaN else if 0 < x then PosInf else NegInf)
      else f32_round (x / y))"
| "f32_div (Finite x) y = Finite 0"
| "f32_div x (Finite y) = (if 0 \<le> y then x else (if x = PosInf then NegInf else PosInf))"
| "f32_div x y = NaN"

text \<open>The comparison \<^verbatim>\<open><=\<close> of Go on \<^verbatim>\<open>float32\<close>: false when a side is NaN.\<close>

fun f32_le :: "float32 \<Rightarrow> float32 \<Rightarrow> bool" where
  "f32_le NaN y = False"
| "f32_le x NaN = False"
| "f32_le NegInf y = True"
| "f32_le x PosInf = True"
| "f32_le (Finite a) (Finite b) = (a \<le> b)"
| "f32_le x y = False"

text \<open>\<^verbatim>\<open>Progress\<close>: the constants 0 and 1 are exact, the quotient is rounded.\<close>

definition Progress :: "QRSequence \<Rightarrow> float32" where
  "Progress s =
     (if ChunkSize s = ChunkSizeUnknown then Finite 0
      else if nrReceived s = int (length (chunks s)) then Finite 1
      else f32_div (f32_of_int (nrReceived s)) (f32_of_int (int (length (chunks s)))))"

definition Data :: "QRSequence \<Rightarrow> go_panic + byte list option" where
  "Data s = (if \<not> IsComplete s then Inr None else GetData (chunks s))"

text \<open>
  \<^verbatim>\<open>addChunk\<close>. The receiver is mutated in place; the model returns the new
  sequence. \<^verbatim>\<open>make([]*QRChunk, chunk.Tot())\<close> is a list of nil pointers, and
  \<^verbatim>\<open>s.chunks[chunk.Nr()]\<close> panics when the index is not below the length.
\<close>

definition addChunk :: "QRSequence \<Rightarrow> QRChunk option \<Rightarrow> go_panic + QRSequence" where
  "addChunk s p =
     (case p of
        None \<Rightarrow> Inl NilPointerDereference
      | Some chunk \<Rightarrow>
          (let s1 = (if ChunkSize s = ChunkSizeUnknown
                     then \<lparr>ChunkSize = cs chunk,
                           chunks = replicate (unat (tot chunk)) None,
                           nrReceived = 0\<rparr>
                     else s);
               i = unat (nr chunk)
           in if i \<ge> length (chunks s1) then Inl (IndexOutOfRange i (length (chunks s1)))
              else if chunks s1 ! i = None then
                Inr (s1\<lparr>chunks := (chunks s1)[i := Some chunk],
                         nrReceived := nrReceived s1 + 1\<rparr>)
              else Inr s1))"

definition AddChunkFromBytes :: "QRSequence \<Rightarrow> byte_slice \<Rightarrow> go_panic + QRSequence" where
  "AddChunkFromBytes s d =
     (if IsComplete s then Inr s
      else
        (case NewChunk d of
           Inl p \<Rightarrow> Inl p
         | Inr None \<Rightarrow> Inr s
         | Inr (Some chunk) \<Rightarrow> addChunk s (Some chunk)))"

text \<open>
  \<^verbatim>\<open>DecodeImage\<close> returns the sequence and the \<^verbatim>\<open>error\<close> value
  (\<^term>\<open>None\<close> is nil).
\<close>

definition DecodeImage ::
  "QRSequence \<Rightarrow> go_error + byte_slice \<Rightarrow> go_panic + (QRSequence \<times> go_error option)" where
  "DecodeImage s img =
     (if IsComplete s then Inr (s, None)
      else
        (case NewChunkFromImage img of
           Inl p \<Rightarrow> Inl p
         | Inr (Inl err) \<Rightarrow> Inr (s, Some err)
         | Inr (Inr chunk) \<Rightarrow>
             (case addChunk s (Some chunk) of
                Inl p \<Rightarrow> Inl p
              | Inr s' \<Rightarrow> Inr (s', None))))"

text \<open>Absorbing a list of chunks in order, stopping at the first panic.\<close>

fun addChunks :: "QRSequence \<Rightarrow> QRChunk option list \<Rightarrow> go_panic + QRSequence" where
  "addChunks s [] = Inr s"
| "addChunks s (p # ps) =
     (case addChunk s p of Inl e \<Rightarrow> Inl e | Inr s' \<Rightarrow> addChunks s' ps)"

section \<open>Auxiliary definitions for the statements\<close>

text \<open>
  The number of chunks that \<^verbatim>\<open>CreateChunks\<close> computes for \<open>len\<close> bytes and a
  payload capacity \<open>ds\<close>: the quotient, plus one when there is a remainder.
\<close>

definition frameCount :: "nat \<Rightarrow> nat \<Rightarrow> nat" where
  "frameCount len ds = (if len mod ds \<noteq> 0 then len div ds + 1 else len div ds)"

text \<open>The chunk that the loop of \<^verbatim>\<open>CreateChunks\<close> appends at index \<open>i\<close>.\<close>

definition frame :: "byte list \<Rightarrow> uint16 \<Rightarrow> nat \<Rightarrow> nat \<Rightarrow> QRChunk" where
  "frame d sz n i =
     \<lparr>nr = of_nat i, tot = of_nat n, cs = sz,
      data = take (unat (sz - 4)) (drop (i * unat (sz - 4)) d)\<rparr>"

text \<open>A sequence that has received the first \<open>k\<close> chunks of \<open>fs\<close>, in order.\<close>

definition slots :: "uint16 \<Rightarrow> QRChunk list \<Rightarrow> nat \<Rightarrow> QRSequence" where
  "slots sz fs k =
     \<lparr>ChunkSize = sz,
      chunks = map Some (take k fs) @ replicate (length fs - k) None,
      nrReceived = int k\<rparr>"

text \<open>
  The two exported ways to feed a sequence, and a series of such calls. A call that
  panics ends the series; the \<^verbatim>\<open>error\<close> of \<^verbatim>\<open>DecodeImage\<close> is dropped, as the
  example program does.
\<close>

datatype absorb_call = FromBytes byte_slice | FromImage "go_error + byte_slice"

fun absorb :: "QRSequence \<Rightarrow> absorb_call \<Rightarrow> go_panic + QRSequence" where
  "absorb s (FromBytes d) = AddChunkFromBytes s d"
| "absorb s (FromImage img) =
     (case DecodeImage s img of Inl p \<Rightarrow> Inl p | Inr (s', err) \<Rightarrow> Inr s')"

fun absorbAll :: "QRSequence \<Rightarrow> absorb_call list \<Rightarrow> go_panic + QRSequence" where
  "absorbAll s [] = Inr s"
| "absorbAll s (a # as) =
     (case absorb s a of Inl p \<Rightarrow> Inl p | Inr s' \<Rightarrow> absorbAll s' as)"

text \<open>
  The number of filled slots, and two invariants of a sequence: \<^verbatim>\<open>nrReceived\<close> is
  the number of filled slots, and a sequence with more than 255 slots has all of them
  counted (\<^verbatim>\<open>New\<close> makes such sequences, \<^verbatim>\<open>addChunk\<close> allocates at most 255
  slots). Neither mentions the exported field \<^verbatim>\<open>ChunkSize\<close>.
\<close>

definition filled :: "QRChunk option list \<Rightarrow> nat" where
  "filled chs = length (filter (\<lambda>p. p \<noteq> None) chs)"

definition counted :: "QRSequence \<Rightarrow> bool" where
  "counted s = (nrReceived s = int (filled (chunks s)))"

definition bounded :: "QRSequence \<Rightarrow> bool" where
  "bounded s = (nrReceived s = int (length (chunks s)) \<or> length (chunks s) \<le> 255)"

text \<open>
  The exact fraction of the slots that are filled, which \<^verbatim>\<open>Progress\<close> rounds: 0
  while the chunk size is unknown, 1 for a sequence without slots.
\<close>

definition fraction :: "QRSequence \<Rightarrow> rat" where
  "fraction s =
     (if ChunkSize s = ChunkSizeUnknown then 0
      else if length (chunks s) = 0 then 1
      else of_int (nrReceived s) / of_nat (length (chunks s)))"

text \<open>
  Sample values: the wire bytes of chunk 0 of 2 at chunk size 32 with one payload byte,
  the sequence that has absorbed it, the bytes of a chunk 1 that declares 3 chunks of
  size 64, and a complete sequence of one chunk.
\<close>

definition sample_bytes :: byte_slice where
  "sample_bytes = \<lparr>elems = [0, 2, 32, 0, 170], spare = []\<rparr>"

definition sample_chunk :: QRChunk where
  "sample_chunk = \<lparr>nr = 0, tot = 2, cs = 32, data = [170]\<rparr>"

definition sample_partial :: QRSequence where
  "sample_partial = \<lparr>ChunkSize = 32, chunks = [Some sample_chunk, None], nrReceived = 1\<rparr>"

definition conflicting_bytes :: byte_slice where
  "conflicting_bytes = \<lparr>elems = [1, 3, 64, 0, 187], spare = []\<rparr>"

definition conflicting_chunk :: QRChunk where
  "conflicting_chunk = \<lparr>nr = 1, tot = 3, cs = 64, data = [187]\<rparr>"

definition sample_complete :: QRSequence where
  "sample_complete =
     \<lparr>ChunkSize = 32, chunks = [Some \<lparr>nr = 0, tot = 1, cs = 32, data = [1, 2, 3]\<rparr>],
      nrReceived = 1\<rparr>"

text \<open>
  A buffer of 30 bytes, which splits into two chunks at chunk size 32, a sequence with
  one of three slots filled, and a complete sequence whose only chunk has no payload.
\<close>

definition sample_data :: "byte list" where
  "sample_data = replicate 28 1 @ [2, 3]"

definition one_of_three :: QRSequence where
  "one_of_three =
     \<lparr>ChunkSize = 32,
      chunks = [None, Some \<lparr>nr = 1, tot = 3, cs = 32, data = [7]\<rparr>, None],
      nrReceived = 1\<rparr>"

definition complete_without_payload :: QRSequence where
  "complete_without_payload =
     \<lparr>ChunkSize = 32, chunks = [Some \<lparr>nr = 0, tot = 1, cs = 32, data = []\<rparr>],
      nrReceived = 1\<rparr>"

section \<open>Lemmas on the frame codec\<close>

lemma binary_Read_Write_u16: "binary_Read_u16 (binary_Write_u16 w @ bs) = Some w"
proof -
  have "(ucast (ucast w :: byte) :: uint16) OR push_bit 8 (ucast (ucast (drop_bit 8 w) :: byte)) = w"
    by (rule bit_word_eqI) (auto simp add: bit_simps)
  then show ?thesis
    by (simp add: binary_Write_u16_def)
qed

lemma unat_valid_size:
  "isValidChunkSize sz \<Longrightarrow> unat sz \<in> {32, 64, 128, 256, 512, 1024}"
  by (auto simp add: isValidChunkSize_def)

lemma valid_size_ge: "isValidChunkSize sz \<Longrightarrow> 32 \<le> unat sz"
  by (auto simp add: isValidChunkSize_def)

lemma valid_size_payload: "isValidChunkSize sz \<Longrightarrow> unat (sz - 4) = unat sz - 4"
  by (auto simp add: isValidChunkSize_def)

lemma valid_size_known: "isValidChunkSize sz \<Longrightarrow> sz \<noteq> ChunkSizeUnknown"
  by (auto simp add: isValidChunkSize_def ChunkSizeUnknown_def)

lemma NewChunk_valid_size:
  "NewChunk d = Inr (Some c) \<Longrightarrow> isValidChunkSize (cs c)"
  by (auto simp add: NewChunk_def Let_def split: if_splits option.splits)

text \<open>A slice of fewer than four bytes never gives a chunk.\<close>

lemma NewChunk_short:
  assumes "length (elems d) < 4"
  shows "NewChunk d \<noteq> Inr (Some c)"
proof
  assume a: "NewChunk d = Inr (Some c)"
  then have "4 \<le> length (elems d) \<or>
      (\<exists>sz. isValidChunkSize sz \<and> unat sz < length (elems d))"
    by (auto simp add: NewChunk_def Let_def split: if_splits option.splits)
  with assms show False
    using valid_size_ge by fastforce
qed

section \<open>Lemmas on the chunker\<close>

lemma chunkData_in_range:
  assumes "i * ds \<le> length d"
  shows "chunkData d ds i = Inr (take ds (drop (i * ds) d))"
  using assms by (simp add: chunkData_def Let_def)

lemma frameCount_index:
  assumes "0 < ds" and "i < frameCount len ds"
  shows "i * ds < len"
proof -
  have "i * ds < len" if "len mod ds \<noteq> 0"
  proof -
    from that assms(2) have "i \<le> len div ds" by (simp add: frameCount_def)
    then have "i * ds \<le> (len div ds) * ds" by simp
    also have "\<dots> < len" using that
      by (metis div_mult_mod_eq less_add_same_cancel1 mod_greater_zero_iff_not_dvd dvd_eq_mod_eq_0 neq0_conv)
    finally show ?thesis .
  qed
  moreover have "i * ds < len" if "len mod ds = 0"
  proof -
    from that assms(2) have "i < len div ds" by (simp add: frameCount_def)
    then have "Suc i \<le> len div ds" by simp
    then have "Suc i * ds \<le> (len div ds) * ds" by (rule mult_le_mono1)
    also have "\<dots> = len" using that by auto
    finally show ?thesis using assms(1) by simp
  qed
  ultimately show ?thesis by blast
qed

lemma frameCount_covers:
  assumes "0 < ds"
  shows "len \<le> frameCount len ds * ds"
proof (cases "len mod ds = 0")
  case True
  then show ?thesis by (auto simp add: frameCount_def)
next
  case False
  have "len = len div ds * ds + len mod ds" by simp
  moreover have "len mod ds < ds" using assms by simp
  ultimately have "len \<le> len div ds * ds + ds" by linarith
  with False show ?thesis by (simp add: frameCount_def)
qed

lemma CreateChunks_loop_frames:
  assumes "\<And>j. j < n \<Longrightarrow> j * unat (sz - 4) \<le> length d"
  shows "i \<le> n \<Longrightarrow>
         CreateChunks_loop d sz n i acc = Inr (acc @ map (\<lambda>j. Some (frame d sz n j)) [i..<n])"
proof (induction "n - i" arbitrary: i acc)
  case 0
  then show ?case by (simp add: CreateChunks_loop.simps)
next
  case (Suc k)
  then have lt: "i < n" by simp
  have cd: "chunkData d (unat (sz - 4)) i = Inr (take (unat (sz - 4)) (drop (i * unat (sz - 4)) d))"
    using assms [OF lt] by (rule chunkData_in_range)
  have step: "CreateChunks_loop d sz n (i + 1) (acc @ [Some (frame d sz n i)])
      = Inr ((acc @ [Some (frame d sz n i)]) @ map (\<lambda>j. Some (frame d sz n j)) [i + 1..<n])"
    using Suc.hyps(2) lt by (intro Suc.hyps(1)) simp_all
  have "CreateChunks_loop d sz n i acc
      = CreateChunks_loop d sz n (i + 1) (acc @ [Some (frame d sz n i)])"
    using lt cd by (subst CreateChunks_loop.simps) (simp add: frame_def)
  also note step
  finally show ?case
    using lt by (simp add: upt_conv_Cons)
qed

lemma CreateChunks_frames:
  assumes "unat (sz - 4) \<noteq> 0"
  shows "CreateChunks d sz =
           Inr (map (\<lambda>j. Some (frame d sz (frameCount (length d) (unat (sz - 4))) j))
                  [0..<frameCount (length d) (unat (sz - 4))])"
proof -
  let ?ds = "unat (sz - 4)"
  let ?n = "frameCount (length d) ?ds"
  have "\<And>j. j < ?n \<Longrightarrow> j * ?ds \<le> length d"
    using frameCount_index [of ?ds _ "length d"] assms by (simp add: less_imp_le)
  then have "CreateChunks_loop d sz ?n 0 [] = Inr ([] @ map (\<lambda>j. Some (frame d sz ?n j)) [0..<?n])"
    by (intro CreateChunks_loop_frames) simp_all
  then show ?thesis
    using assms by (simp add: CreateChunks_def Let_def frameCount_def)
qed

lemma concat_frames:
  "concat (map (\<lambda>j. take ds (drop (j * ds) d)) [0..<n]) = take (n * ds) d"
proof (induction n)
  case 0
  then show ?case by simp
next
  case (Suc n)
  have "take (n * ds) d @ take ds (drop (n * ds) d) = take (n * ds + ds) d"
    by (simp add: take_add)
  with Suc show ?case by (simp add: add.commute)
qed

lemma frameCount_zero: "0 < ds \<Longrightarrow> (frameCount len ds = 0) = (len = 0)"
proof (cases "len = 0")
  case True
  then show ?thesis by (simp add: frameCount_def)
next
  case False
  assume "0 < ds"
  have "len \<le> frameCount len ds * ds" using \<open>0 < ds\<close> by (rule frameCount_covers)
  with False show ?thesis by (cases "frameCount len ds") auto
qed

lemma unat_byte_of_nat: "j \<le> 255 \<Longrightarrow> unat (of_nat j :: byte) = j"
  by (simp add: unat_of_nat take_bit_nat_eq_self)

section \<open>Lemmas on absorbing chunks\<close>

lemma slots_fill_one:
  assumes "k < length fs"
  shows "(map Some (take k fs) @ replicate (length fs - k) None)[k := Some (fs ! k)]
           = map Some (take (Suc k) fs) @ replicate (length fs - Suc k) None"
proof -
  obtain m where m: "length fs - k = Suc m"
    using assms by (metis Suc_diff_Suc)
  then have m': "length fs - Suc k = m" by simp
  show ?thesis
    using assms unfolding m m'
    by (simp add: list_update_append take_Suc_conv_app_nth)
qed

lemma addChunk_slots:
  assumes "sz \<noteq> ChunkSizeUnknown" and "k < length fs" and "unat (nr (fs ! k)) = k"
  shows "addChunk (slots sz fs k) (Some (fs ! k)) = Inr (slots sz fs (Suc k))"
proof -
  have "(map Some (take k fs) @ replicate (length fs - k) None) ! k = None"
    using assms(2) by (simp add: nth_append)
  then show ?thesis
    using assms slots_fill_one [OF assms(2)]
    by (simp add: addChunk_def slots_def Let_def)
qed

lemma addChunks_slots:
  assumes "sz \<noteq> ChunkSizeUnknown" and "\<And>j. j < length fs \<Longrightarrow> unat (nr (fs ! j)) = j"
  shows "k \<le> length fs \<Longrightarrow>
         addChunks (slots sz fs k) (map Some (drop k fs)) = Inr (slots sz fs (length fs))"
proof (induction "length fs - k" arbitrary: k)
  case 0
  then show ?case by simp
next
  case (Suc m)
  then have lt: "k < length fs" by simp
  have "drop k fs = fs ! k # drop (Suc k) fs"
    using lt by (simp add: Cons_nth_drop_Suc)
  moreover have "addChunk (slots sz fs k) (Some (fs ! k)) = Inr (slots sz fs (Suc k))"
    using assms(1) lt assms(2) [OF lt] by (rule addChunk_slots)
  moreover have "addChunks (slots sz fs (Suc k)) (map Some (drop (Suc k) fs))
                   = Inr (slots sz fs (length fs))"
    using Suc.hyps(2) lt by (intro Suc.hyps(1)) simp_all
  ultimately show ?case by simp
qed

lemma addChunk_first:
  assumes "fs \<noteq> []" and "unat (tot (fs ! 0)) = length fs" and "cs (fs ! 0) = sz"
  shows "addChunk NewEmpty (Some (fs ! 0))
           = addChunk (slots sz fs 0) (Some (fs ! 0))"
  using assms by (simp add: addChunk_def NewEmpty_def slots_def Let_def)

lemma addChunks_NewEmpty:
  assumes "sz \<noteq> ChunkSizeUnknown" and "fs \<noteq> []"
    and "\<And>j. j < length fs \<Longrightarrow> unat (nr (fs ! j)) = j"
    and "unat (tot (fs ! 0)) = length fs" and "cs (fs ! 0) = sz"
  shows "addChunks NewEmpty (map Some fs) = Inr (slots sz fs (length fs))"
proof -
  have pos: "0 < length fs" using assms(2) by simp
  have fs: "fs = fs ! 0 # drop (Suc 0) fs"
    using pos by (simp add: Cons_nth_drop_Suc)
  have one: "addChunk NewEmpty (Some (fs ! 0)) = Inr (slots sz fs (Suc 0))"
    using addChunk_first [OF assms(2,4,5)] addChunk_slots [OF assms(1) pos assms(3) [OF pos]]
    by simp
  have rest: "addChunks (slots sz fs (Suc 0)) (map Some (drop (Suc 0) fs))
                = Inr (slots sz fs (length fs))"
    using pos by (intro addChunks_slots [OF assms(1,3)]) (simp_all add: Suc_leI)
  have "addChunks NewEmpty (map Some fs)
          = addChunks NewEmpty (Some (fs ! 0) # map Some (drop (Suc 0) fs))"
    using fs by (metis list.simps(9))
  then show ?thesis using one rest by simp
qed

lemma GetData_loop_Some:
  "GetData_loop (map Some fs) acc = Inr (acc @ concat (map data fs))"
  by (induction fs arbitrary: acc) simp_all

lemma GetData_Some:
  assumes "fs \<noteq> []"
  shows "GetData (map Some fs) = Inr (Some (concat (map data fs)))"
  using assms by (cases fs) (simp_all add: GetData_def GetData_loop_Some)

lemma Data_slots:
  assumes "sz \<noteq> ChunkSizeUnknown" and "fs \<noteq> []"
  shows "Data (slots sz fs (length fs)) = Inr (Some (concat (map data fs)))"
  using assms GetData_Some [OF assms(2)]
  by (simp add: Data_def IsComplete_def slots_def)

lemma addChunk_known:
  assumes "ChunkSize s \<noteq> ChunkSizeUnknown" and "unat (nr c) < length (chunks s)"
  shows "addChunk s (Some c) =
           Inr (if chunks s ! unat (nr c) = None
                then s\<lparr>chunks := (chunks s)[unat (nr c) := Some c], nrReceived := nrReceived s + 1\<rparr>
                else s)"
  using assms by (simp add: addChunk_def Let_def)

lemma addChunk_result:
  assumes "addChunk s (Some c) = Inr s'" and "cs c \<noteq> ChunkSizeUnknown"
  shows "ChunkSize s' \<noteq> ChunkSizeUnknown \<and> unat (nr c) < length (chunks s')
           \<and> chunks s' ! unat (nr c) \<noteq> None"
  using assms by (auto simp add: addChunk_def Let_def split: if_splits)

lemma addChunk_twice:
  assumes "addChunk s (Some c) = Inr s'" and "cs c \<noteq> ChunkSizeUnknown"
  shows "addChunk s' (Some c) = Inr s'"
  using addChunk_result [OF assms] by (auto simp add: addChunk_known)

text \<open>The slot access is not guarded: these are the two ways it leaves the slot array.\<close>

lemma addChunk_total_zero:
  assumes "ChunkSize s = ChunkSizeUnknown" and "tot c = 0"
  shows "addChunk s (Some c) = Inl (IndexOutOfRange (unat (nr c)) 0)"
  using assms by (simp add: addChunk_def Let_def)

lemma addChunk_index_beyond:
  assumes "ChunkSize s \<noteq> ChunkSizeUnknown" and "length (chunks s) \<le> unat (nr c)"
  shows "addChunk s (Some c) = Inl (IndexOutOfRange (unat (nr c)) (length (chunks s)))"
  using assms by (simp add: addChunk_def Let_def)

section \<open>Lemmas on the rounding to float32\<close>

lemma round_even_bounds: "\<lfloor>x\<rfloor> \<le> round_even x \<and> round_even x \<le> \<lfloor>x\<rfloor> + 1"
  by (simp add: round_even_def Let_def)

lemma round_even_of_int: "round_even (of_int k) = k"
  by (simp add: round_even_def Let_def)

lemma round_even_same_floor:
  assumes "x \<le> y" and "\<lfloor>x\<rfloor> = \<lfloor>y\<rfloor>"
  shows "round_even x \<le> round_even y"
proof -
  have "x - of_int \<lfloor>y\<rfloor> \<le> y - of_int \<lfloor>y\<rfloor>" using assms(1) by simp
  then show ?thesis
    using assms(2) by (auto simp add: round_even_def Let_def)
qed

lemma round_even_mono:
  assumes "x \<le> y"
  shows "round_even x \<le> round_even y"
proof (cases "\<lfloor>x\<rfloor> = \<lfloor>y\<rfloor>")
  case True
  with assms show ?thesis by (rule round_even_same_floor)
next
  case False
  moreover have "\<lfloor>x\<rfloor> \<le> \<lfloor>y\<rfloor>" using assms by (rule floor_mono)
  ultimately have "\<lfloor>x\<rfloor> + 1 \<le> \<lfloor>y\<rfloor>" by simp
  then show ?thesis
    using round_even_bounds [of x] round_even_bounds [of y] by linarith
qed

lemma exponent_from_range:
  "- 126 \<le> f32_exponent_from a n \<and> f32_exponent_from a n \<le> int n - 126"
  by (induction n) auto

lemma exponent_from_lower:
  "- 126 < f32_exponent_from a n \<Longrightarrow> power_int 2 (f32_exponent_from a n) \<le> a"
  by (induction n) (auto split: if_splits)

lemma exponent_from_upper:
  "f32_exponent_from a n < int n - 126 \<Longrightarrow> a < power_int 2 (f32_exponent_from a n + 1)"
proof (induction n)
  case 0
  then show ?case by simp
next
  case (Suc n)
  show ?case
  proof (cases "power_int 2 (int n - 125) \<le> a")
    case True
    with Suc.prems show ?thesis by simp
  next
    case False
    then have e: "f32_exponent_from a (Suc n) = f32_exponent_from a n" by simp
    show ?thesis
    proof (cases "f32_exponent_from a n < int n - 126")
      case True
      then show ?thesis using Suc.IH e by simp
    next
      case top: False
      then have "f32_exponent_from a n = int n - 126"
        using exponent_from_range [of a n] by linarith
      then have "f32_exponent_from a (Suc n) + 1 = int n - 125"
        using e by simp
      then show ?thesis using False by (simp only: not_le)
    qed
  qed
qed

lemma exponent_range: "- 126 \<le> f32_exponent a \<and> f32_exponent a \<le> 127"
  using exponent_from_range [of a 253] by (simp add: f32_exponent_def)

lemma exponent_lower: "- 126 < f32_exponent a \<Longrightarrow> power_int 2 (f32_exponent a) \<le> a"
  unfolding f32_exponent_def by (rule exponent_from_lower)

lemma exponent_upper: "f32_exponent a < 127 \<Longrightarrow> a < power_int 2 (f32_exponent a + 1)"
  using exponent_from_upper [of a 253] by (simp add: f32_exponent_def)

lemma exponent_mono:
  assumes "a \<le> b"
  shows "f32_exponent a \<le> f32_exponent b"
proof (rule ccontr)
  assume "\<not> f32_exponent a \<le> f32_exponent b"
  then have lt: "f32_exponent b < f32_exponent a" by simp
  then have "- 126 < f32_exponent a" "f32_exponent b < 127"
    using exponent_range [of a] exponent_range [of b] by linarith+
  then have "power_int 2 (f32_exponent a) \<le> a" "b < power_int 2 (f32_exponent b + 1)"
    by (simp_all add: exponent_lower exponent_upper)
  moreover have "power_int (2 :: rat) (f32_exponent b + 1) \<le> power_int 2 (f32_exponent a)"
    using lt by (intro power_int_increasing) simp_all
  ultimately show False using assms by linarith
qed

lemma pow2_ulp:
  "power_int (2 :: rat) e = 2 ^ 23 * power_int 2 (e - 23)"
  "power_int (2 :: rat) (e + 1) = 2 ^ 24 * power_int 2 (e - 23)"
proof -
  have "power_int (2 :: rat) (23 + (e - 23)) = power_int 2 23 * power_int 2 (e - 23)"
    by (rule power_int_add) simp
  then show "power_int (2 :: rat) e = 2 ^ 23 * power_int 2 (e - 23)" by simp
  have "power_int (2 :: rat) (24 + (e - 23)) = power_int 2 24 * power_int 2 (e - 23)"
    by (rule power_int_add) simp
  then show "power_int (2 :: rat) (e + 1) = 2 ^ 24 * power_int 2 (e - 23)"
    by (simp add: algebra_simps)
qed

lemma ulp_pos: "0 < power_int (2 :: rat) e"
  by simp

lemma nearest_le_next_power:
  assumes "f32_exponent a < 127"
  shows "f32_nearest a \<le> power_int 2 (f32_exponent a + 1)"
proof -
  let ?u = "power_int (2 :: rat) (f32_exponent a - 23)"
  have "a < 2 ^ 24 * ?u"
    using exponent_upper [OF assms] by (simp add: pow2_ulp(2))
  then have "a / ?u < 2 ^ 24"
    by (simp add: pos_divide_less_eq)
  then have "\<lfloor>a / ?u\<rfloor> < 2 ^ 24"
    by (simp add: floor_less_iff)
  then have "round_even (a / ?u) \<le> 2 ^ 24"
    using round_even_bounds [of "a / ?u"] by linarith
  then have "(of_int (round_even (a / ?u)) :: rat) \<le> of_int (2 ^ 24)"
    by (simp only: of_int_le_iff)
  then have "of_int (round_even (a / ?u)) * ?u \<le> 2 ^ 24 * ?u"
    by (intro mult_right_mono) simp_all
  then show ?thesis
    by (simp add: f32_nearest_def Let_def pow2_ulp(2))
qed

lemma nearest_ge_power:
  assumes "- 126 < f32_exponent a"
  shows "power_int 2 (f32_exponent a) \<le> f32_nearest a"
proof -
  let ?u = "power_int (2 :: rat) (f32_exponent a - 23)"
  have "2 ^ 23 * ?u \<le> a"
    using exponent_lower [OF assms] pow2_ulp(1) [of "f32_exponent a"] by linarith
  then have "2 ^ 23 \<le> a / ?u"
    by (simp add: pos_le_divide_eq)
  then have "2 ^ 23 \<le> \<lfloor>a / ?u\<rfloor>"
    by (simp add: le_floor_iff)
  then have "2 ^ 23 \<le> round_even (a / ?u)"
    using round_even_bounds [of "a / ?u"] by linarith
  then have "(of_int (2 ^ 23) :: rat) \<le> of_int (round_even (a / ?u))"
    by (simp only: of_int_le_iff)
  then have "2 ^ 23 * ?u \<le> of_int (round_even (a / ?u)) * ?u"
    by (intro mult_right_mono) simp_all
  moreover have "f32_nearest a = of_int (round_even (a / ?u)) * ?u"
    by (simp add: f32_nearest_def Let_def)
  ultimately show ?thesis
    using pow2_ulp(1) [of "f32_exponent a"] by linarith
qed

lemma nearest_mono:
  assumes "a \<le> b"
  shows "f32_nearest a \<le> f32_nearest b"
proof (cases "f32_exponent a = f32_exponent b")
  case True
  let ?u = "power_int (2 :: rat) (f32_exponent b - 23)"
  have "a / ?u \<le> b / ?u"
    using assms by (intro divide_right_mono) simp_all
  then have "round_even (a / ?u) \<le> round_even (b / ?u)"
    by (rule round_even_mono)
  then have "(of_int (round_even (a / ?u)) :: rat) \<le> of_int (round_even (b / ?u))"
    by (simp only: of_int_le_iff)
  then have "of_int (round_even (a / ?u)) * ?u \<le> of_int (round_even (b / ?u)) * ?u"
    by (intro mult_right_mono) simp_all
  then show ?thesis
    using True by (simp add: f32_nearest_def Let_def)
next
  case False
  then have lt: "f32_exponent a < f32_exponent b"
    using exponent_mono [OF assms] by linarith
  then have "f32_exponent a < 127" "- 126 < f32_exponent b"
    using exponent_range [of a] exponent_range [of b] by linarith+
  then have "f32_nearest a \<le> power_int 2 (f32_exponent a + 1)"
    and "power_int 2 (f32_exponent b) \<le> f32_nearest b"
    by (simp_all add: nearest_le_next_power nearest_ge_power)
  moreover have "power_int (2 :: rat) (f32_exponent a + 1) \<le> power_int 2 (f32_exponent b)"
    using lt by (intro power_int_increasing) simp_all
  ultimately show ?thesis by linarith
qed

lemma nearest_zero: "f32_nearest 0 = 0"
  by (simp add: f32_nearest_def Let_def round_even_of_int [of 0, simplified])

lemma nearest_nonneg: "0 \<le> a \<Longrightarrow> 0 \<le> f32_nearest a"
  using nearest_mono [of 0 a] by (simp add: nearest_zero)

lemma round_nonneg_cases:
  assumes "0 \<le> a"
  shows "f32_round a = (if 2 ^ 128 \<le> f32_nearest a then PosInf else Finite (f32_nearest a))"
  using assms by (simp add: f32_round_def Let_def)

lemma round_mono:
  assumes "0 \<le> a" and "a \<le> b"
  shows "f32_le (f32_round a) (f32_round b)"
proof -
  have "0 \<le> b" using assms by linarith
  moreover have "f32_nearest a \<le> f32_nearest b" using assms(2) by (rule nearest_mono)
  ultimately show ?thesis
    using assms(1) by (auto simp add: round_nonneg_cases)
qed

lemma nearest_of_nat:
  assumes "n < 2 ^ 24"
  shows "f32_nearest (of_nat n) = of_nat n"
proof -
  let ?a = "of_nat n :: rat"
  let ?e = "f32_exponent ?a"
  have e: "?e \<le> 23"
  proof (rule ccontr)
    assume "\<not> ?e \<le> 23"
    then have big: "24 \<le> ?e" by simp
    then have "power_int 2 ?e \<le> ?a" by (intro exponent_lower) simp
    moreover have "power_int (2 :: rat) 24 \<le> power_int 2 ?e"
      using big by (intro power_int_increasing) simp_all
    ultimately have "(2 :: rat) ^ 24 \<le> of_nat n" by simp
    then have "(of_nat (2 ^ 24) :: rat) \<le> of_nat n" by simp
    then have "2 ^ 24 \<le> n" by (simp only: of_nat_le_iff)
    with assms show False by simp
  qed
  define d where "d = nat (23 - ?e)"
  have "?e - 23 = - int d" using e by (simp add: d_def)
  then have u: "power_int (2 :: rat) (?e - 23) = inverse (2 ^ d)"
    by (simp add: power_int_minus)
  have "?a / inverse (2 ^ d) = of_int (int n * 2 ^ d)"
    by (simp add: divide_inverse)
  then have "round_even (?a / inverse (2 ^ d)) = int n * 2 ^ d"
    by (simp only: round_even_of_int)
  then show ?thesis
    by (simp add: f32_nearest_def Let_def u)
qed

lemma round_of_nat:
  assumes "n < 2 ^ 24"
  shows "f32_round (of_nat n) = Finite (of_nat n)"
proof -
  have "(of_nat n :: rat) < of_nat (2 ^ 24)"
    using assms by (simp only: of_nat_less_iff)
  then have "(of_nat n :: rat) < 2 ^ 128" by simp
  then show ?thesis
    using nearest_of_nat [OF assms] by (simp add: round_nonneg_cases)
qed

lemma of_int_of_nat: "n < 2 ^ 24 \<Longrightarrow> f32_of_int (int n) = Finite (of_nat n)"
  using round_of_nat [of n] by (simp add: f32_of_int_def)

lemma round_254_255: "f32_round (254 / 255) = Finite (16711423 / 16777216)"
  by code_simp

lemma round_below_one:
  assumes "0 \<le> q" and "q \<le> 254 / 255"
  shows "\<exists>v. f32_round q = Finite v \<and> 0 \<le> v \<and> v < 1"
proof -
  have "f32_le (f32_round q) (Finite (16711423 / 16777216))"
    using round_mono [OF assms] by (simp add: round_254_255)
  then have "f32_round q = Finite (f32_nearest q) \<and> f32_nearest q \<le> 16711423 / 16777216"
    using assms(1) by (auto simp add: round_nonneg_cases split: if_splits)
  then show ?thesis
    using nearest_nonneg [OF assms(1)] by auto
qed

text \<open>The value that the code returns for one slot of three, and for one slot of two.\<close>

lemma round_third: "f32_round (1 / 3) = Finite (11184811 / 33554432)"
  by code_simp

lemma round_half: "f32_round (1 / 2) = Finite (1 / 2)"
  by code_simp

text \<open>
  Beyond 24 bits the conversion rounds: a counter of \<open>2 ^ 24 + 1\<close> over \<open>2 ^ 24\<close> slots
  gives the quotient 1. The bound on the number of slots in the invariants excludes it.
\<close>

lemma quotient_rounds_to_one:
  "f32_div (f32_of_int 16777217) (f32_of_int 16777216) = Finite 1"
  by code_simp

section \<open>Lemmas on the counter and the progress\<close>

lemma filled_le: "filled chs \<le> length chs"
  by (simp add: filled_def)

lemma filled_replicate: "filled (replicate n None) = 0"
  by (simp add: filled_def)

lemma filled_map_Some: "filled (map Some fs) = length fs"
  by (induction fs) (simp_all add: filled_def)

lemma filled_update:
  "i < length chs \<Longrightarrow> chs ! i = None \<Longrightarrow> filled (chs[i := Some c]) = Suc (filled chs)"
proof (induction chs arbitrary: i)
  case Nil
  then show ?case by simp
next
  case (Cons p ps)
  show ?case
  proof (cases i)
    case 0
    with Cons.prems show ?thesis by (simp add: filled_def)
  next
    case (Suc j)
    with Cons.prems have "filled (ps[j := Some c]) = Suc (filled ps)"
      by (intro Cons.IH) simp_all
    with Suc show ?thesis by (simp add: filled_def)
  qed
qed

lemma filled_less:
  assumes "i < length chs" and "chs ! i = None"
  shows "filled chs < length chs"
proof -
  have "Suc (filled chs) = filled (chs[i := Some undefined])"
    using assms by (simp add: filled_update)
  also have "\<dots> \<le> length (chs[i := Some undefined])" by (rule filled_le)
  finally show ?thesis by simp
qed

lemma fraction_nonneg: "counted s \<Longrightarrow> 0 \<le> fraction s"
  by (simp add: fraction_def counted_def)

lemma addChunk_counted:
  assumes "counted s" and "addChunk s (Some c) = Inr s'" and "cs c \<noteq> ChunkSizeUnknown"
  shows "counted s' \<and> fraction s \<le> fraction s'"
proof (cases "ChunkSize s = ChunkSizeUnknown")
  case True
  let ?fresh = "replicate (unat (tot c)) (None :: QRChunk option)"
  from assms(2) True have i: "unat (nr c) < unat (tot c)"
    and s': "s' = \<lparr>ChunkSize = cs c, chunks = ?fresh[unat (nr c) := Some c], nrReceived = 1\<rparr>"
    by (auto simp add: addChunk_def Let_def split: if_splits)
  have "filled (?fresh[unat (nr c) := Some c]) = Suc (filled ?fresh)"
    using i by (intro filled_update) simp_all
  then have c': "counted s'"
    by (simp add: s' counted_def filled_replicate)
  moreover have "fraction s = 0" using True by (simp add: fraction_def)
  ultimately show ?thesis using fraction_nonneg [OF c'] by simp
next
  case False
  from assms(2) False have i: "unat (nr c) < length (chunks s)"
    by (auto simp add: addChunk_def Let_def split: if_splits)
  show ?thesis
  proof (cases "chunks s ! unat (nr c) = None")
    case True
    with assms(2) False i
    have s': "s' = s\<lparr>chunks := (chunks s)[unat (nr c) := Some c], nrReceived := nrReceived s + 1\<rparr>"
      by (simp add: addChunk_known)
    have "counted s'"
      using assms(1) filled_update [OF i True] by (simp add: s' counted_def)
    moreover have "fraction s \<le> fraction s'"
      using False i by (auto simp add: s' fraction_def divide_right_mono)
    ultimately show ?thesis by simp
  next
    case nonempty: False
    with assms(2) False i have "s' = s" by (simp add: addChunk_known)
    with assms(1) show ?thesis by simp
  qed
qed

lemma absorb_counted:
  assumes "counted s" and "absorb s a = Inr s'"
  shows "counted s' \<and> fraction s \<le> fraction s'"
proof (cases a)
  case (FromBytes d)
  show ?thesis
  proof (cases "IsComplete s \<or> NewChunk d = Inr None")
    case True
    with assms(2) FromBytes have "s' = s"
      by (auto simp add: AddChunkFromBytes_def split: if_splits)
    with assms(1) show ?thesis by simp
  next
    case False
    with assms(2) FromBytes obtain c where c: "NewChunk d = Inr (Some c)"
      and add: "addChunk s (Some c) = Inr s'"
      by (auto simp add: AddChunkFromBytes_def split: if_splits sum.splits option.splits)
    have "cs c \<noteq> ChunkSizeUnknown"
      using c by (intro valid_size_known NewChunk_valid_size)
    with assms(1) add show ?thesis by (rule addChunk_counted)
  qed
next
  case (FromImage img)
  show ?thesis
  proof (cases "IsComplete s \<or> (\<exists>err. NewChunkFromImage img = Inr (Inl err))")
    case True
    with assms(2) FromImage have "s' = s"
      by (auto simp add: DecodeImage_def split: if_splits)
    with assms(1) show ?thesis by simp
  next
    case False
    with assms(2) FromImage obtain c where c: "NewChunkFromImage img = Inr (Inr c)"
      and add: "addChunk s (Some c) = Inr s'"
      by (auto simp add: DecodeImage_def split: if_splits sum.splits)
    from c obtain bytes where "NewChunk bytes = Inr (Some c)"
      by (auto simp add: NewChunkFromImage_def split: sum.splits option.splits)
    then have "cs c \<noteq> ChunkSizeUnknown"
      by (intro valid_size_known NewChunk_valid_size)
    with assms(1) add show ?thesis by (rule addChunk_counted)
  qed
qed

lemma absorbAll_counted:
  "counted s \<Longrightarrow> absorbAll s calls = Inr s' \<Longrightarrow> counted s' \<and> fraction s \<le> fraction s'"
proof (induction calls arbitrary: s)
  case Nil
  then show ?case by simp
next
  case (Cons a as)
  from Cons.prems(2) obtain s1 where one: "absorb s a = Inr s1" and rest: "absorbAll s1 as = Inr s'"
    by (auto split: sum.splits)
  from Cons.prems(1) one have "counted s1 \<and> fraction s \<le> fraction s1"
    by (rule absorb_counted)
  moreover from this rest have "counted s' \<and> fraction s1 \<le> fraction s'"
    by (intro Cons.IH) simp_all
  ultimately show ?case by simp
qed

lemma New_counted: "New D sz = Inr s \<Longrightarrow> counted s"
proof -
  assume a: "New D sz = Inr s"
  then have nz: "unat (sz - 4) \<noteq> 0"
    by (auto simp add: New_def CreateChunks_def Let_def split: sum.splits if_splits)
  from a CreateChunks_frames [OF nz, of D] show ?thesis
    by (auto simp add: New_def counted_def filled_def comp_def)
qed

lemma unat_byte_le: "unat (b :: byte) \<le> 255"
proof -
  have "unat b < 2 ^ LENGTH(8)" by (rule unsigned_less)
  then show ?thesis by simp
qed

lemma addChunk_bounded:
  assumes "bounded s" and "addChunk s (Some c) = Inr s'" and "\<not> IsComplete s"
  shows "bounded s'"
proof (cases "ChunkSize s = ChunkSizeUnknown")
  case True
  with assms(2) have "length (chunks s') = unat (tot c)"
    by (auto simp add: addChunk_def Let_def split: if_splits)
  then show ?thesis using unat_byte_le [of "tot c"] by (simp add: bounded_def)
next
  case False
  with assms(1,3) have "length (chunks s) \<le> 255"
    by (auto simp add: bounded_def IsComplete_def)
  moreover from assms(2) False have "length (chunks s') = length (chunks s)"
    by (auto simp add: addChunk_def Let_def split: if_splits)
  ultimately show ?thesis by (simp add: bounded_def)
qed

lemma absorb_bounded:
  assumes "bounded s" and "absorb s a = Inr s'"
  shows "bounded s'"
proof (cases a)
  case (FromBytes d)
  show ?thesis
  proof (cases "IsComplete s \<or> NewChunk d = Inr None")
    case True
    with assms(2) FromBytes have "s' = s"
      by (auto simp add: AddChunkFromBytes_def split: if_splits)
    with assms(1) show ?thesis by simp
  next
    case False
    with assms(2) FromBytes obtain c where "addChunk s (Some c) = Inr s'"
      by (auto simp add: AddChunkFromBytes_def split: if_splits sum.splits option.splits)
    with assms(1) False show ?thesis by (auto intro: addChunk_bounded)
  qed
next
  case (FromImage img)
  show ?thesis
  proof (cases "IsComplete s \<or> (\<exists>err. NewChunkFromImage img = Inr (Inl err))")
    case True
    with assms(2) FromImage have "s' = s"
      by (auto simp add: DecodeImage_def split: if_splits)
    with assms(1) show ?thesis by simp
  next
    case False
    with assms(2) FromImage obtain c where "addChunk s (Some c) = Inr s'"
      by (auto simp add: DecodeImage_def split: if_splits sum.splits)
    with assms(1) False show ?thesis by (auto intro: addChunk_bounded)
  qed
qed

lemma absorbAll_bounded:
  "bounded s \<Longrightarrow> absorbAll s calls = Inr s' \<Longrightarrow> bounded s'"
proof (induction calls arbitrary: s)
  case Nil
  then show ?case by simp
next
  case (Cons a as)
  from Cons.prems(2) obtain s1 where one: "absorb s a = Inr s1" and rest: "absorbAll s1 as = Inr s'"
    by (auto split: sum.splits)
  from Cons.prems(1) one have "bounded s1" by (rule absorb_bounded)
  then show ?case using rest by (rule Cons.IH)
qed

lemma New_bounded: "New D sz = Inr s \<Longrightarrow> bounded s"
  by (auto simp add: New_def bounded_def split: sum.splits)

text \<open>On a sequence with both invariants \<^verbatim>\<open>Progress\<close> is the rounded fraction.\<close>

lemma Progress_fraction:
  assumes "counted s" and "bounded s"
  shows "Progress s = f32_round (fraction s)"
proof (cases "ChunkSize s = ChunkSizeUnknown \<or> nrReceived s = int (length (chunks s))")
  case True
  have "f32_round 0 = Finite 0" "f32_round 1 = Finite 1"
    using round_of_nat [of 0] round_of_nat [of 1] by simp_all
  with True show ?thesis
    by (auto simp add: Progress_def fraction_def)
next
  case False
  with assms(2) have len: "length (chunks s) \<le> 255" by (simp add: bounded_def)
  have n: "nrReceived s = int (filled (chunks s))" using assms(1) by (simp add: counted_def)
  have "filled (chunks s) \<le> length (chunks s)" by (rule filled_le)
  with len have small: "filled (chunks s) < 2 ^ 24" "length (chunks s) < 2 ^ 24" by simp_all
  have pos: "length (chunks s) \<noteq> 0" using False n by (auto simp add: filled_def)
  have "Progress s = f32_div (f32_of_int (int (filled (chunks s))))
      (f32_of_int (int (length (chunks s))))"
    using False n by (simp add: Progress_def)
  also have "\<dots> = f32_round (of_nat (filled (chunks s)) / of_nat (length (chunks s)))"
    using pos by (simp add: of_int_of_nat [OF small(1)] of_int_of_nat [OF small(2)])
  also have "\<dots> = f32_round (fraction s)"
    using False pos n by (simp add: fraction_def)
  finally show ?thesis .
qed

lemma fraction_incomplete:
  assumes "counted s" and "bounded s" and "ChunkSize s \<noteq> ChunkSizeUnknown"
    and "\<not> IsComplete s"
  shows "0 \<le> fraction s \<and> fraction s \<le> 254 / 255"
proof -
  let ?n = "filled (chunks s)" and ?m = "length (chunks s)"
  have n: "nrReceived s = int ?n" using assms(1) by (simp add: counted_def)
  have ne: "?n \<noteq> ?m" using assms(3,4) n by (simp add: IsComplete_def)
  then have lt: "?n < ?m" using filled_le [of "chunks s"] by simp
  have m: "?m \<le> 255" using assms(2) ne n by (simp add: bounded_def)
  have "255 * ?n \<le> 254 * ?m" using lt m by simp
  then have "(of_nat (255 * ?n) :: rat) \<le> of_nat (254 * ?m)" by (simp only: of_nat_le_iff)
  then have "(of_nat ?n :: rat) * 255 \<le> 254 * of_nat ?m"
    by (simp add: mult.commute)
  moreover have ne': "chunks s \<noteq> []" using lt by (cases "chunks s") simp_all
  then have mpos: "(0 :: rat) < of_nat ?m" by simp
  ultimately have "(of_nat ?n :: rat) / of_nat ?m \<le> 254 / 255"
    by (simp add: divide_le_eq pos_divide_le_eq)
  moreover have "fraction s = of_nat ?n / of_nat ?m"
    using assms(3) n ne' by (simp add: fraction_def)
  ultimately show ?thesis by simp
qed

lemma Progress_one:
  assumes "counted s" and "bounded s"
  shows "(Progress s = Finite 1) = IsComplete s"
proof (cases "IsComplete s")
  case True
  then show ?thesis by (simp add: Progress_def IsComplete_def split: if_splits)
next
  case False
  show ?thesis
  proof (cases "ChunkSize s = ChunkSizeUnknown")
    case True
    with False show ?thesis by (simp add: Progress_def)
  next
    case known: False
    from assms known False have "0 \<le> fraction s \<and> fraction s \<le> 254 / 255"
      by (rule fraction_incomplete)
    then obtain v where "f32_round (fraction s) = Finite v" and "v < 1"
      using round_below_one [of "fraction s"] by blast
    then show ?thesis
      using False by (simp add: Progress_fraction [OF assms])
  qed
qed

lemma Progress_mono:
  assumes "counted s" and "bounded s" and "counted s'" and "bounded s'"
    and "fraction s \<le> fraction s'"
  shows "f32_le (Progress s) (Progress s')"
  using round_mono [OF fraction_nonneg [OF assms(1)] assms(5)]
  by (simp add: Progress_fraction assms)

lemma ChunkSize_update_invariants:
  "counted (s\<lparr>ChunkSize := z\<rparr>) = counted s" "bounded (s\<lparr>ChunkSize := z\<rparr>) = bounded s"
  by (simp_all add: counted_def bounded_def)

lemma sample_bytes_chunk: "NewChunk sample_bytes = Inr (Some sample_chunk)"
  by (simp add: NewChunk_def sample_bytes_def sample_chunk_def isValidChunkSize_def)

lemma conflicting_bytes_chunk: "NewChunk conflicting_bytes = Inr (Some conflicting_chunk)"
  by (simp add: NewChunk_def conflicting_bytes_def conflicting_chunk_def isValidChunkSize_def)

lemma absorb_sample: "AddChunkFromBytes NewEmpty sample_bytes = Inr sample_partial"
  by (simp add: AddChunkFromBytes_def sample_bytes_chunk IsComplete_def NewEmpty_def
      addChunk_def sample_chunk_def sample_partial_def ChunkSizeUnknown_def)
     (simp add: numeral_2_eq_2)

lemma sample_partial_facts:
  "ChunkSize sample_partial \<noteq> ChunkSizeUnknown" "\<not> IsComplete sample_partial"
  "counted sample_partial"
  by (simp_all add: sample_partial_def ChunkSizeUnknown_def IsComplete_def counted_def filled_def)

lemma sample_complete_facts:
  "ChunkSize sample_complete \<noteq> ChunkSizeUnknown" "IsComplete sample_complete"
  by (simp_all add: sample_complete_def ChunkSizeUnknown_def IsComplete_def)

section \<open>The claims\<close>

subsection \<open>C1: round trip\<close>

text \<open>
  Claim C1 says that splitting a buffer \<open>D\<close>, absorbing the chunks in the split order
  and reconstructing returns \<open>D\<close>, for every \<open>D\<close> that needs at most 255 chunks. For
  the buffer of length 0, which needs no chunk, \<^verbatim>\<open>CreateChunks\<close> returns no chunk, the
  sequence stays empty and is not complete, and \<^verbatim>\<open>Data\<close> returns the nil slice by
  which it answers for every sequence that is not complete, where a complete sequence
  whose payload is empty returns an empty slice that is not nil.
\<close>

theorem roundtrip_empty_not_reconstructed:
  "isValidChunkSize 32 \<and> frameCount (length ([] :: byte list)) (unat (32 :: uint16) - 4) \<le> 255
   \<and> CreateChunks [] 32 = Inr []
   \<and> addChunks NewEmpty [] = Inr NewEmpty
   \<and> \<not> IsComplete NewEmpty
   \<and> Data NewEmpty = Inr None
   \<and> Data NewEmpty \<noteq> Inr (Some [])
   \<and> Data sample_partial = Inr None
   \<and> Data complete_without_payload = Inr (Some [])"
  by (simp add: isValidChunkSize_def frameCount_def CreateChunks_def CreateChunks_loop.simps
      NewEmpty_def IsComplete_def Data_def GetData_def sample_partial_def
      complete_without_payload_def ChunkSizeUnknown_def)

text \<open>
  Claim C1, amended. For every buffer \<open>D\<close> that is not empty and every chunk size of the
  enumeration such that the number of chunks, the ceiling of \<open>length D / (sz - 4)\<close>, is
  at most 255: \<^verbatim>\<open>CreateChunks\<close> returns chunks, \<^verbatim>\<open>addChunk\<close> absorbs them in
  the split order into the empty sequence without a panic, the sequence is then
  complete, and \<^verbatim>\<open>Data\<close> returns a slice that is not nil and holds exactly \<open>D\<close>.
\<close>

theorem roundtrip_split_absorb_reconstruct:
  assumes "isValidChunkSize sz" and "D \<noteq> []"
    and "frameCount (length D) (unat sz - 4) \<le> 255"
  shows "\<exists>fs s. CreateChunks D sz = Inr fs \<and> addChunks NewEmpty fs = Inr s
           \<and> IsComplete s \<and> Data s = Inr (Some D)"
proof -
  let ?ds = "unat (sz - 4)"
  let ?n = "frameCount (length D) ?ds"
  let ?fs = "map (frame D sz ?n) [0..<?n]"
  have ds: "?ds = unat sz - 4" using assms(1) by (rule valid_size_payload)
  have pos: "0 < ?ds" using valid_size_ge [OF assms(1)] ds by simp
  have n: "?n \<le> 255" using assms(3) ds by simp
  have known: "sz \<noteq> ChunkSizeUnknown"
    using assms(1) by (rule valid_size_known)
  have split: "CreateChunks D sz = Inr (map Some ?fs)"
    using CreateChunks_frames [of sz D] pos by (simp add: comp_def)
  have npos: "0 < ?n" using assms(2) pos frameCount_zero [of ?ds "length D"] by simp
  then have ne: "?fs \<noteq> []" by simp
  have idx: "\<And>j. j < length ?fs \<Longrightarrow> unat (nr (?fs ! j)) = j"
    using n by (simp add: frame_def unat_byte_of_nat)
  have first: "unat (tot (?fs ! 0)) = length ?fs" "cs (?fs ! 0) = sz"
    using n npos by (simp_all add: frame_def unat_byte_of_nat)
  have absorb: "addChunks NewEmpty (map Some ?fs) = Inr (slots sz ?fs (length ?fs))"
    using known ne idx first by (rule addChunks_NewEmpty)
  have "concat (map data ?fs) = take (?n * ?ds) D"
    using concat_frames [of ?ds D ?n] by (simp add: frame_def comp_def)
  also have "\<dots> = D"
    using frameCount_covers [OF pos, of "length D"] by simp
  finally have "Data (slots sz ?fs (length ?fs)) = Inr (Some D)"
    using Data_slots [OF known ne] by simp
  moreover have "IsComplete (slots sz ?fs (length ?fs))"
    using known by (simp add: IsComplete_def slots_def)
  ultimately show ?thesis
    using split absorb by blast
qed

theorem roundtrip_split_absorb_reconstruct_witness:
  "isValidChunkSize 32 \<and> sample_data \<noteq> []
   \<and> frameCount (length sample_data) (unat (32 :: uint16) - 4) \<le> 255
   \<and> CreateChunks sample_data 32
       = Inr [Some \<lparr>nr = 0, tot = 2, cs = 32, data = replicate 28 1\<rparr>,
              Some \<lparr>nr = 1, tot = 2, cs = 32, data = [2, 3]\<rparr>]
   \<and> (\<exists>fs s. CreateChunks sample_data 32 = Inr fs \<and> addChunks NewEmpty fs = Inr s
           \<and> IsComplete s \<and> Data s = Inr (Some sample_data))"
proof -
  have v: "isValidChunkSize 32" by (simp add: isValidChunkSize_def)
  have d: "sample_data \<noteq> []" by (simp add: sample_data_def)
  have c: "frameCount (length sample_data) (unat (32 :: uint16) - 4) \<le> 255"
    by (simp add: frameCount_def sample_data_def)
  have two: "frameCount (length sample_data) (unat ((32 :: uint16) - 4)) = 2"
    by (simp add: frameCount_def sample_data_def)
  have "CreateChunks sample_data 32
      = Inr (map (\<lambda>j. Some (frame sample_data 32 2 j)) [0..<2])"
    using CreateChunks_frames [of 32 sample_data] two by simp
  moreover have "[0..<2] = [0, Suc 0]" by (simp add: upt_rec)
  ultimately have split: "CreateChunks sample_data 32
       = Inr [Some \<lparr>nr = 0, tot = 2, cs = 32, data = replicate 28 1\<rparr>,
              Some \<lparr>nr = 1, tot = 2, cs = 32, data = [2, 3]\<rparr>]"
    by (simp add: frame_def sample_data_def)
  show ?thesis
    using v d c split roundtrip_split_absorb_reconstruct [OF v d c] by blast
qed

subsection \<open>C2: short input to the header decoder\<close>

text \<open>
  Claim C2 says that \<^verbatim>\<open>NewChunk\<close> reports a failure for every slice of fewer than
  four bytes. The code has no length check: on the empty slice and on a slice of one
  byte the index expressions panic, on a slice of three bytes the slice expressions
  panic (with capacity 3 at \<^verbatim>\<open>data[2:4]\<close>, with capacity 4 at \<^verbatim>\<open>data[4:]\<close>), and
  \<^verbatim>\<open>AddChunkFromBytes\<close> passes the panic on.
\<close>

theorem NewChunk_short_input_panics:
  "NewChunk \<lparr>elems = [], spare = []\<rparr> = Inl (IndexOutOfRange 0 0)
   \<and> NewChunk \<lparr>elems = [0], spare = []\<rparr> = Inl (IndexOutOfRange 1 1)
   \<and> NewChunk \<lparr>elems = [0, 1, 32], spare = []\<rparr> = Inl (SliceBoundsOutOfRange 4 3)
   \<and> NewChunk \<lparr>elems = [0, 1, 32], spare = [0]\<rparr> = Inl (SliceBoundsOutOfRange 4 3)
   \<and> AddChunkFromBytes NewEmpty \<lparr>elems = [], spare = []\<rparr> = Inl (IndexOutOfRange 0 0)"
  by (simp add: NewChunk_def AddChunkFromBytes_def NewEmpty_def IsComplete_def
      isValidChunkSize_def)

subsection \<open>C3: more than 255 chunks\<close>

text \<open>
  Claim C3 says that \<^verbatim>\<open>CreateChunks\<close> reports a failure when more than 255 chunks
  are needed. On 7168 bytes at chunk size 32 the code returns 256 chunks; each of them
  declares a total of 0, the low eight bits of 256, and the empty sequence panics when
  it absorbs the first of them.
\<close>

theorem CreateChunks_truncates_total:
  "\<exists>fs. CreateChunks (replicate 7168 0) 32 = Inr fs \<and> length fs = 256
     \<and> fs ! 0 = Some \<lparr>nr = 0, tot = 0, cs = 32, data = replicate 28 0\<rparr>
     \<and> fs ! 255 = Some \<lparr>nr = 255, tot = 0, cs = 32, data = replicate 28 0\<rparr>
     \<and> addChunk NewEmpty (fs ! 0) = Inl (IndexOutOfRange 0 0)"
proof -
  let ?D = "replicate 7168 (0 :: byte)"
  have "unat ((32 :: uint16) - 4) \<noteq> 0" by simp
  then have "CreateChunks ?D 32 =
      Inr (map (\<lambda>j. Some (frame ?D 32 (frameCount (length ?D) (unat ((32 :: uint16) - 4))) j))
             [0..<frameCount (length ?D) (unat ((32 :: uint16) - 4))])"
    by (rule CreateChunks_frames)
  moreover have "frameCount (length ?D) (unat ((32 :: uint16) - 4)) = 256"
    by (simp add: frameCount_def)
  ultimately have split: "CreateChunks ?D 32 = Inr (map (\<lambda>j. Some (frame ?D 32 256 j)) [0..<256])"
    by simp
  have first: "frame ?D 32 256 0 = \<lparr>nr = 0, tot = 0, cs = 32, data = replicate 28 0\<rparr>"
    and last: "frame ?D 32 256 255 = \<lparr>nr = 255, tot = 0, cs = 32, data = replicate 28 0\<rparr>"
    by (simp_all add: frame_def)
  have panic: "addChunk NewEmpty (Some \<lparr>nr = 0, tot = 0, cs = 32, data = replicate 28 0\<rparr>)
      = Inl (IndexOutOfRange 0 0)"
    by (simp add: addChunk_def NewEmpty_def Let_def)
  show ?thesis
    using split first last panic by simp
qed

subsection \<open>C4: a header that declares no chunk\<close>

text \<open>
  Claim C4 says that a frame whose header declares a total of 0 is rejected by the empty
  sequence with a reported failure and without a crash. The code allocates no slot and
  then indexes slot \<^verbatim>\<open>chunk.Nr()\<close>: it panics, through \<^verbatim>\<open>AddChunkFromBytes\<close> and
  through \<^verbatim>\<open>DecodeImage\<close>.
\<close>

theorem absorb_total_zero_panics:
  "AddChunkFromBytes NewEmpty \<lparr>elems = [0, 0, 32, 0], spare = []\<rparr> = Inl (IndexOutOfRange 0 0)
   \<and> DecodeImage NewEmpty (Inr \<lparr>elems = [0, 0, 32, 0], spare = []\<rparr>)
       = Inl (IndexOutOfRange 0 0)"
  by (simp add: AddChunkFromBytes_def DecodeImage_def NewChunkFromImage_def NewChunk_def
      NewEmpty_def IsComplete_def isValidChunkSize_def addChunk_def ChunkSizeUnknown_def)

subsection \<open>C5: a later frame with another chunk size or total\<close>

text \<open>
  Claim C5 says that a frame whose chunk size and total differ from those the sequence
  has fixed is rejected or ignored. The code never compares them: the sequence that
  holds chunk 0 of 2 at size 32 stores a chunk 1 that declares 3 chunks of size 64, and
  is complete with it.
\<close>

theorem conflicting_frame_stored:
  "AddChunkFromBytes NewEmpty sample_bytes = Inr sample_partial
   \<and> NewChunk conflicting_bytes = Inr (Some conflicting_chunk)
   \<and> cs conflicting_chunk \<noteq> ChunkSize sample_partial
   \<and> unat (tot conflicting_chunk) \<noteq> length (chunks sample_partial)
   \<and> AddChunkFromBytes sample_partial conflicting_bytes
       = Inr \<lparr>ChunkSize = 32, chunks = [Some sample_chunk, Some conflicting_chunk],
              nrReceived = 2\<rparr>
   \<and> chunks sample_partial \<noteq> [Some sample_chunk, Some conflicting_chunk]
   \<and> IsComplete \<lparr>ChunkSize = 32, chunks = [Some sample_chunk, Some conflicting_chunk],
                  nrReceived = 2\<rparr>"
proof -
  have "AddChunkFromBytes sample_partial conflicting_bytes
       = Inr \<lparr>ChunkSize = 32, chunks = [Some sample_chunk, Some conflicting_chunk],
              nrReceived = 2\<rparr>"
    using sample_partial_facts(2)
    by (simp add: AddChunkFromBytes_def conflicting_bytes_chunk addChunk_def)
       (simp add: sample_partial_def conflicting_chunk_def ChunkSizeUnknown_def)
  then show ?thesis
    using absorb_sample conflicting_bytes_chunk
    by (simp add: sample_partial_def conflicting_chunk_def IsComplete_def ChunkSizeUnknown_def)
qed

text \<open>
  Claim C5, amended. Once the chunk size is known, absorbing a frame whose index is
  below the number of slots changes neither the chunk size nor the number of slots, and
  the chunk size and total that the frame declares are not looked at: the frame is
  stored and counted when its slot is empty, and the sequence is unchanged when the slot
  is filled.
\<close>

theorem later_frame_unchecked:
  assumes "ChunkSize s \<noteq> ChunkSizeUnknown" and "\<not> IsComplete s"
    and "NewChunk d = Inr (Some c)" and "unat (nr c) < length (chunks s)"
  shows "\<exists>s'. AddChunkFromBytes s d = Inr s'
           \<and> ChunkSize s' = ChunkSize s \<and> length (chunks s') = length (chunks s)
           \<and> s' = (if chunks s ! unat (nr c) = None
                   then s\<lparr>chunks := (chunks s)[unat (nr c) := Some c],
                          nrReceived := nrReceived s + 1\<rparr>
                   else s)"
  using assms addChunk_known [OF assms(1,4)]
  by (simp add: AddChunkFromBytes_def)

theorem later_frame_unchecked_witness:
  "ChunkSize sample_partial \<noteq> ChunkSizeUnknown \<and> \<not> IsComplete sample_partial
   \<and> NewChunk conflicting_bytes = Inr (Some conflicting_chunk)
   \<and> unat (nr conflicting_chunk) < length (chunks sample_partial)
   \<and> (\<exists>s'. AddChunkFromBytes sample_partial conflicting_bytes = Inr s'
           \<and> ChunkSize s' = ChunkSize sample_partial
           \<and> length (chunks s') = length (chunks sample_partial)
           \<and> s' = (if chunks sample_partial ! unat (nr conflicting_chunk) = None
                   then sample_partial\<lparr>chunks := (chunks sample_partial)
                                          [unat (nr conflicting_chunk) := Some conflicting_chunk],
                          nrReceived := nrReceived sample_partial + 1\<rparr>
                   else sample_partial))"
proof -
  have i: "unat (nr conflicting_chunk) < length (chunks sample_partial)"
    by (simp add: conflicting_chunk_def sample_partial_def)
  show ?thesis
    using sample_partial_facts(1,2) conflicting_bytes_chunk i
      later_frame_unchecked [OF sample_partial_facts(1,2) conflicting_bytes_chunk i]
    by blast
qed

subsection \<open>C6: idempotence\<close>

text \<open>
  Claim C6. Absorbing is idempotent. When \<^verbatim>\<open>AddChunkFromBytes\<close> or
  \<^verbatim>\<open>DecodeImage\<close> has returned, the same call on the resulting sequence returns that
  sequence unchanged, so \<^verbatim>\<open>Progress\<close>, \<^verbatim>\<open>IsComplete\<close>, \<^verbatim>\<open>Data\<close> and the counter
  are what they were after the first call; on a complete sequence every call returns
  the sequence unchanged; and \<^verbatim>\<open>addChunk\<close> on a filled slot of a sequence with a
  known chunk size returns the sequence unchanged, counter included.
\<close>

theorem absorb_idempotent:
  "(AddChunkFromBytes s d = Inr s1 \<longrightarrow> AddChunkFromBytes s1 d = Inr s1)
   \<and> (DecodeImage s img = Inr (s2, e) \<longrightarrow> DecodeImage s2 img = Inr (s2, e))
   \<and> (IsComplete t \<longrightarrow> AddChunkFromBytes t d = Inr t \<and> DecodeImage t img = Inr (t, None))
   \<and> (ChunkSize u \<noteq> ChunkSizeUnknown \<and> unat (nr c) < length (chunks u)
        \<and> chunks u ! unat (nr c) \<noteq> None \<longrightarrow> addChunk u (Some c) = Inr u)"
proof (intro conjI impI)
  assume a: "AddChunkFromBytes s d = Inr s1"
  show "AddChunkFromBytes s1 d = Inr s1"
  proof (cases "IsComplete s \<or> NewChunk d = Inr None")
    case True
    with a have "s1 = s" by (auto simp add: AddChunkFromBytes_def split: if_splits)
    with a show ?thesis by simp
  next
    case False
    with a obtain c' where c': "NewChunk d = Inr (Some c')" and add: "addChunk s (Some c') = Inr s1"
      by (auto simp add: AddChunkFromBytes_def split: if_splits sum.splits option.splits)
    have "cs c' \<noteq> ChunkSizeUnknown"
      using c' by (intro valid_size_known NewChunk_valid_size)
    with add have "addChunk s1 (Some c') = Inr s1" by (rule addChunk_twice)
    with c' show ?thesis by (simp add: AddChunkFromBytes_def)
  qed
next
  assume a: "DecodeImage s img = Inr (s2, e)"
  show "DecodeImage s2 img = Inr (s2, e)"
  proof (cases "IsComplete s \<or> (\<exists>err. NewChunkFromImage img = Inr (Inl err))")
    case True
    with a have "s2 = s" by (auto simp add: DecodeImage_def split: if_splits)
    with a show ?thesis by simp
  next
    case False
    with a obtain c' where c': "NewChunkFromImage img = Inr (Inr c')"
      and add: "addChunk s (Some c') = Inr s2" and e: "e = None"
      by (auto simp add: DecodeImage_def split: if_splits sum.splits)
    from c' obtain bytes where "NewChunk bytes = Inr (Some c')"
      by (auto simp add: NewChunkFromImage_def split: sum.splits option.splits)
    then have "cs c' \<noteq> ChunkSizeUnknown"
      by (intro valid_size_known NewChunk_valid_size)
    with add have "addChunk s2 (Some c') = Inr s2" by (rule addChunk_twice)
    with c' e show ?thesis by (simp add: DecodeImage_def)
  qed
next
  assume "IsComplete t"
  then show "AddChunkFromBytes t d = Inr t" by (simp add: AddChunkFromBytes_def)
next
  assume "IsComplete t"
  then show "DecodeImage t img = Inr (t, None)" by (simp add: DecodeImage_def)
next
  assume "ChunkSize u \<noteq> ChunkSizeUnknown \<and> unat (nr c) < length (chunks u)
        \<and> chunks u ! unat (nr c) \<noteq> None"
  then show "addChunk u (Some c) = Inr u" by (auto simp add: addChunk_known)
qed

theorem absorb_idempotent_witness:
  "AddChunkFromBytes NewEmpty sample_bytes = Inr sample_partial
   \<and> AddChunkFromBytes sample_partial sample_bytes = Inr sample_partial
   \<and> DecodeImage NewEmpty (Inr sample_bytes) = Inr (sample_partial, None)
   \<and> DecodeImage sample_partial (Inr sample_bytes) = Inr (sample_partial, None)
   \<and> IsComplete sample_complete
   \<and> AddChunkFromBytes sample_complete sample_bytes = Inr sample_complete
   \<and> DecodeImage sample_complete (Inr sample_bytes) = Inr (sample_complete, None)
   \<and> ChunkSize sample_partial \<noteq> ChunkSizeUnknown
   \<and> unat (nr sample_chunk) < length (chunks sample_partial)
   \<and> chunks sample_partial ! unat (nr sample_chunk) \<noteq> None
   \<and> addChunk sample_partial (Some sample_chunk) = Inr sample_partial"
proof -
  have img: "DecodeImage NewEmpty (Inr sample_bytes) = Inr (sample_partial, None)"
    using absorb_sample
    by (simp add: DecodeImage_def AddChunkFromBytes_def NewChunkFromImage_def
        sample_bytes_chunk NewEmpty_def IsComplete_def)
  have slot: "unat (nr sample_chunk) < length (chunks sample_partial)"
    "chunks sample_partial ! unat (nr sample_chunk) \<noteq> None"
    by (simp_all add: sample_chunk_def sample_partial_def)
  show ?thesis
    using absorb_sample img slot sample_partial_facts(1) sample_complete_facts(2)
      absorb_idempotent [of NewEmpty sample_bytes sample_partial "Inr sample_bytes"
        sample_partial None sample_complete sample_partial sample_chunk]
    by simp
qed

subsection \<open>C7: progress\<close>

text \<open>
  Claim C7. \<^verbatim>\<open>Progress\<close> is 0 on a sequence whose chunk size is unknown and 1 on a
  complete one. The sequences that a caller can hold satisfy two invariants: the counter
  is the number of filled slots, and a sequence with more than 255 slots has all of
  them counted. \<^verbatim>\<open>NewEmpty\<close> and \<^verbatim>\<open>New\<close> return such sequences, an assignment to
  the exported field \<^verbatim>\<open>ChunkSize\<close> and every series of absorbing calls that
  returns keep both invariants. On such a sequence that is neither empty nor complete
  \<^verbatim>\<open>Progress\<close> is the counter divided by the number of slots, rounded to
  \<^verbatim>\<open>float32\<close>; it is 1 exactly when \<^verbatim>\<open>IsComplete\<close> holds; and the progress
  after a series of absorbing calls is not below the progress before it.
\<close>

theorem progress_properties:
  "(ChunkSize e = ChunkSizeUnknown \<longrightarrow> Progress e = Finite 0)
   \<and> (IsComplete c \<longrightarrow> Progress c = Finite 1)
   \<and> (counted p \<and> bounded p \<and> ChunkSize p \<noteq> ChunkSizeUnknown \<and> \<not> IsComplete p \<longrightarrow>
        Progress p = f32_round (of_int (nrReceived p) / of_nat (length (chunks p))))
   \<and> (counted s \<and> bounded s \<longrightarrow> (Progress s = Finite 1) = IsComplete s)
   \<and> counted NewEmpty \<and> bounded NewEmpty
   \<and> (New D sz = Inr n \<longrightarrow> counted n \<and> bounded n)
   \<and> (counted u \<and> bounded u \<longrightarrow>
        counted (u\<lparr>ChunkSize := z\<rparr>) \<and> bounded (u\<lparr>ChunkSize := z\<rparr>))
   \<and> (counted t \<and> bounded t \<and> absorbAll t calls = Inr t' \<longrightarrow>
        counted t' \<and> bounded t' \<and> f32_le (Progress t) (Progress t'))"
proof (intro conjI impI)
  show "Progress e = Finite 0" if "ChunkSize e = ChunkSizeUnknown"
    using that by (simp add: Progress_def)
  show "Progress c = Finite 1" if "IsComplete c"
    using that by (simp add: Progress_def IsComplete_def split: if_splits)
  show "Progress p = f32_round (of_int (nrReceived p) / of_nat (length (chunks p)))"
    if "counted p \<and> bounded p \<and> ChunkSize p \<noteq> ChunkSizeUnknown \<and> \<not> IsComplete p"
  proof -
    from that have "length (chunks p) \<noteq> 0"
      by (auto simp add: counted_def filled_def IsComplete_def)
    with that show ?thesis
      by (simp add: Progress_fraction fraction_def)
  qed
  show "(Progress s = Finite 1) = IsComplete s" if "counted s \<and> bounded s"
    using that by (simp add: Progress_one)
  show "counted NewEmpty" by (simp add: counted_def NewEmpty_def filled_def)
  show "bounded NewEmpty" by (simp add: bounded_def NewEmpty_def)
  show "counted n" if "New D sz = Inr n" using that by (rule New_counted)
  show "bounded n" if "New D sz = Inr n" using that by (rule New_bounded)
  show "counted (u\<lparr>ChunkSize := z\<rparr>)" if "counted u \<and> bounded u"
    using that by (simp add: ChunkSize_update_invariants)
  show "bounded (u\<lparr>ChunkSize := z\<rparr>)" if "counted u \<and> bounded u"
    using that by (simp add: ChunkSize_update_invariants)
  show "counted t'" if "counted t \<and> bounded t \<and> absorbAll t calls = Inr t'"
    using that absorbAll_counted by blast
  show "bounded t'" if "counted t \<and> bounded t \<and> absorbAll t calls = Inr t'"
    using that absorbAll_bounded by blast
  show "f32_le (Progress t) (Progress t')"
    if "counted t \<and> bounded t \<and> absorbAll t calls = Inr t'"
  proof -
    from that have "counted t' \<and> fraction t \<le> fraction t'"
      using absorbAll_counted by blast
    moreover from that have "bounded t'"
      using absorbAll_bounded by blast
    ultimately show ?thesis
      using that by (simp add: Progress_mono)
  qed
qed

theorem progress_properties_witness:
  "ChunkSize NewEmpty = ChunkSizeUnknown \<and> Progress NewEmpty = Finite 0
   \<and> IsComplete sample_complete \<and> Progress sample_complete = Finite 1
   \<and> counted one_of_three \<and> bounded one_of_three
   \<and> ChunkSize one_of_three \<noteq> ChunkSizeUnknown \<and> \<not> IsComplete one_of_three
   \<and> Progress one_of_three
       = f32_round (of_int (nrReceived one_of_three) / of_nat (length (chunks one_of_three)))
   \<and> Progress one_of_three = Finite (11184811 / 33554432)
   \<and> counted sample_partial \<and> bounded sample_partial
   \<and> ((Progress sample_partial = Finite 1) = IsComplete sample_partial)
   \<and> New [1, 2, 3] 32 = Inr sample_complete
   \<and> counted sample_complete \<and> bounded sample_complete
   \<and> counted (sample_partial\<lparr>ChunkSize := 0\<rparr>) \<and> bounded (sample_partial\<lparr>ChunkSize := 0\<rparr>)
   \<and> counted NewEmpty \<and> bounded NewEmpty
   \<and> absorbAll NewEmpty [FromBytes sample_bytes] = Inr sample_partial
   \<and> Progress sample_partial = Finite (1 / 2)
   \<and> f32_le (Progress NewEmpty) (Progress sample_partial)"
proof -
  have empty: "ChunkSize NewEmpty = ChunkSizeUnknown" by (simp add: NewEmpty_def)
  have new: "New [1, 2, 3] 32 = Inr sample_complete"
    by (simp add: New_def CreateChunks_def CreateChunks_loop.simps chunkData_def
        sample_complete_def)
  have series: "absorbAll NewEmpty [FromBytes sample_bytes] = Inr sample_partial"
    using absorb_sample by simp
  have third: "counted one_of_three" "bounded one_of_three"
    "ChunkSize one_of_three \<noteq> ChunkSizeUnknown" "\<not> IsComplete one_of_three"
    by (simp_all add: one_of_three_def counted_def bounded_def filled_def
        ChunkSizeUnknown_def IsComplete_def)
  have bpartial: "bounded sample_partial"
    by (simp add: sample_partial_def bounded_def)
  note p = progress_properties [of NewEmpty sample_complete one_of_three sample_partial
      "[1, 2, 3]" 32 sample_complete sample_partial 0 NewEmpty "[FromBytes sample_bytes]"
      sample_partial]
  have zero: "Progress NewEmpty = Finite 0"
    using p empty by blast
  have one: "Progress sample_complete = Finite 1"
    using p sample_complete_facts(2) by blast
  have quot: "Progress one_of_three
      = f32_round (of_int (nrReceived one_of_three) / of_nat (length (chunks one_of_three)))"
    using p third by blast
  have quot': "Progress one_of_three = Finite (11184811 / 33554432)"
    using quot round_third by (simp add: one_of_three_def)
  have iff: "(Progress sample_partial = Finite 1) = IsComplete sample_partial"
    using p sample_partial_facts(3) bpartial by blast
  have cnew: "counted sample_complete \<and> bounded sample_complete"
    using p new by blast
  have cupd: "counted (sample_partial\<lparr>ChunkSize := 0\<rparr>) \<and> bounded (sample_partial\<lparr>ChunkSize := 0\<rparr>)"
    using p sample_partial_facts(3) bpartial by blast
  have cempty: "counted NewEmpty \<and> bounded NewEmpty"
    using p by blast
  have mono: "f32_le (Progress NewEmpty) (Progress sample_partial)"
    using p cempty series by blast
  have half: "Progress sample_partial = Finite (1 / 2)"
    using Progress_fraction [OF sample_partial_facts(3) bpartial] round_half
    by (simp add: fraction_def sample_partial_def ChunkSizeUnknown_def)
  show ?thesis
    using empty zero sample_complete_facts(2) one third quot quot' sample_partial_facts(3)
      bpartial iff new cnew cupd cempty series half mono
    by blast
qed

subsection \<open>C8: wire format round trip\<close>

text \<open>
  Claim C8. For every chunk with a chunk size of the enumeration and a payload of at
  most chunk size minus four bytes, \<^verbatim>\<open>NewChunk\<close> on the bytes that \<^verbatim>\<open>QRCode\<close>
  builds (index, total, chunk size as 16 bits little-endian, payload) returns that
  chunk, whatever the spare capacity of the slice holds.
\<close>

theorem NewChunk_qrdata_roundtrip:
  assumes "isValidChunkSize (cs c)" and "length (data c) \<le> unat (cs c) - 4"
  shows "NewChunk \<lparr>elems = qrdata c, spare = sp\<rparr> = Inr (Some c)"
proof -
  have len: "length (qrdata c) = length (data c) + 4"
    by (simp add: qrdata_def binary_Write_u16_def)
  have ge: "32 \<le> unat (cs c)"
    using assms(1) by (rule valid_size_ge)
  have rd: "binary_Read_u16 (take 2 (drop 2 (qrdata c @ sp))) = Some (cs c)"
    using binary_Read_Write_u16 [of "cs c" "[]"]
    by (simp add: qrdata_def binary_Write_u16_def)
  have notgt: "\<not> length (qrdata c) > unat (cs c)"
    using assms(2) ge len by linarith
  have hd: "qrdata c ! 0 = nr c" "qrdata c ! 1 = tot c" "drop 4 (qrdata c) = data c"
    by (simp_all add: qrdata_def binary_Write_u16_def)
  show ?thesis
    using rd notgt assms(1) hd len
    by (simp add: NewChunk_def Let_def)
qed

theorem NewChunk_qrdata_roundtrip_witness:
  "isValidChunkSize (cs sample_chunk) \<and> length (data sample_chunk) \<le> unat (cs sample_chunk) - 4
   \<and> qrdata sample_chunk = elems sample_bytes
   \<and> NewChunk \<lparr>elems = qrdata sample_chunk, spare = []\<rparr> = Inr (Some sample_chunk)"
proof -
  have v: "isValidChunkSize (cs sample_chunk)"
    by (simp add: sample_chunk_def isValidChunkSize_def)
  have l: "length (data sample_chunk) \<le> unat (cs sample_chunk) - 4"
    by (simp add: sample_chunk_def)
  have q: "qrdata sample_chunk = elems sample_bytes"
    by (simp add: qrdata_def binary_Write_u16_def sample_chunk_def sample_bytes_def)
  show ?thesis
    using v l q NewChunk_qrdata_roundtrip [OF v l, of "[]"] by simp
qed

subsection \<open>C9: the slot index\<close>

text \<open>
  Claim C9 says that the slot access of \<^verbatim>\<open>addChunk\<close> stays inside the slot array,
  also for a frame whose index is not below the total. The code does not compare the
  index with the number of slots: a first frame with index 5 of 2 panics on the two
  slots it has just allocated, and a frame with index 2 panics on a sequence of two
  slots.
\<close>

theorem absorb_index_beyond_total_panics:
  "AddChunkFromBytes NewEmpty \<lparr>elems = [5, 2, 32, 0], spare = []\<rparr> = Inl (IndexOutOfRange 5 2)
   \<and> AddChunkFromBytes sample_partial \<lparr>elems = [2, 2, 32, 0], spare = []\<rparr>
       = Inl (IndexOutOfRange 2 2)"
  by (simp add: AddChunkFromBytes_def NewChunk_def NewEmpty_def sample_partial_def
      IsComplete_def isValidChunkSize_def addChunk_def ChunkSizeUnknown_def)

subsection \<open>C10: a sequence made from no data\<close>

text \<open>
  Claim C10. \<^verbatim>\<open>New\<close> on a buffer of length 0 and a chunk size of the enumeration
  returns a sequence without chunks, for which \<^verbatim>\<open>IsComplete\<close> is true, \<^verbatim>\<open>Progress\<close>
  is 1 and \<^verbatim>\<open>Data\<close> is the nil slice, not an empty one.
\<close>

theorem New_empty_data:
  assumes "isValidChunkSize sz"
  shows "\<exists>s. New [] sz = Inr s \<and> chunks s = [] \<and> IsComplete s \<and> Progress s = Finite 1
           \<and> Data s = Inr None"
proof -
  have nz: "unat (sz - 4) \<noteq> 0" and nz2: "sz \<noteq> 0"
    using assms by (auto simp add: isValidChunkSize_def)
  have "CreateChunks [] sz = Inr []"
    using nz by (simp add: CreateChunks_def CreateChunks_loop.simps)
  then have "New [] sz = Inr \<lparr>ChunkSize = sz, chunks = [], nrReceived = 0\<rparr>"
    by (simp add: New_def)
  then show ?thesis
    using nz2 by (simp add: IsComplete_def Progress_def Data_def GetData_def ChunkSizeUnknown_def)
qed

theorem New_empty_data_witness:
  "isValidChunkSize 64
   \<and> (\<exists>s. New [] 64 = Inr s \<and> chunks s = [] \<and> IsComplete s \<and> Progress s = Finite 1
           \<and> Data s = Inr None)"
proof -
  have v: "isValidChunkSize 64" by (simp add: isValidChunkSize_def)
  show ?thesis using v New_empty_data [OF v] by blast
qed

end
